theory Spec2Isabelle
  imports Main "HOL-Library.AList" "HOL-Library.Word"
begin

unbundle bit_operations_syntax

section \<open>Go values, maps and the store\<close>

text \<open>
  A Go map value is a reference to a map object (or nil). The grouped cache is a map of
  maps, and two of its accessors hand inner references out, so the map objects live in an
  explicit store. Go is statically typed: a \<^verbatim>\<open>map[ID]map[ID]T\<close> never aliases a
  \<^verbatim>\<open>map[ID]T\<close>, a \<^verbatim>\<open>map[ID][]T\<close> or a \<^verbatim>\<open>[]T\<close>, hence one store component per
  object type. A map object is an association list: its order stands for the order in
  which a \<^verbatim>\<open>range\<close> loop visits the entries, which Go leaves unspecified, so nothing below
  depends on more than the list being some enumeration of the entries.

  Allocation (\<^verbatim>\<open>make\<close>) takes the address \<open>next_addr\<close> and increments it.
  A reference is \<open>addr option\<close>, \<open>None\<close> being nil.
\<close>

type_synonym addr = nat

record ('k, 'T) heap =
  outer_maps :: "addr \<Rightarrow> ('k \<times> addr) list"
  inner_maps :: "addr \<Rightarrow> ('k \<times> 'T) list"
  slice_maps :: "addr \<Rightarrow> ('k \<times> addr) list"
  slices :: "addr \<Rightarrow> 'T list"
  next_addr :: addr

text \<open>Reading through a map reference; a nil map reads as the empty map.\<close>

definition outer_entries :: "('k, 'T) heap \<Rightarrow> addr option \<Rightarrow> ('k \<times> addr) list" where
  "outer_entries h r = (case r of None \<Rightarrow> [] | Some a \<Rightarrow> outer_maps h a)"

definition inner_entries :: "('k, 'T) heap \<Rightarrow> addr option \<Rightarrow> ('k \<times> 'T) list" where
  "inner_entries h r = (case r of None \<Rightarrow> [] | Some a \<Rightarrow> inner_maps h a)"

text \<open>\<^verbatim>\<open>make(map[ID]map[ID]T)\<close> and \<^verbatim>\<open>make(map[ID]T)\<close>.\<close>

definition make_outer :: "('k, 'T) heap \<Rightarrow> addr \<times> ('k, 'T) heap" where
  "make_outer h =
     (next_addr h,
      h\<lparr>outer_maps := (outer_maps h)(next_addr h := []), next_addr := Suc (next_addr h)\<rparr>)"

definition make_inner :: "('k, 'T) heap \<Rightarrow> addr \<times> ('k, 'T) heap" where
  "make_inner h =
     (next_addr h,
      h\<lparr>inner_maps := (inner_maps h)(next_addr h := []), next_addr := Suc (next_addr h)\<rparr>)"

text \<open>\<^verbatim>\<open>m[k] = v\<close> and \<^verbatim>\<open>delete(m, k)\<close> on a map object at a non-nil address.\<close>

definition outer_store :: "addr \<Rightarrow> 'k \<Rightarrow> addr \<Rightarrow> ('k, 'T) heap \<Rightarrow> ('k, 'T) heap" where
  "outer_store a k v h = h\<lparr>outer_maps := (outer_maps h)(a := AList.update k v (outer_maps h a))\<rparr>"

definition inner_store :: "addr \<Rightarrow> 'k \<Rightarrow> 'T \<Rightarrow> ('k, 'T) heap \<Rightarrow> ('k, 'T) heap" where
  "inner_store a k v h = h\<lparr>inner_maps := (inner_maps h)(a := AList.update k v (inner_maps h a))\<rparr>"

definition outer_delete :: "addr \<Rightarrow> 'k \<Rightarrow> ('k, 'T) heap \<Rightarrow> ('k, 'T) heap" where
  "outer_delete a k h = h\<lparr>outer_maps := (outer_maps h)(a := AList.delete k (outer_maps h a))\<rparr>"

definition inner_delete :: "addr \<Rightarrow> 'k \<Rightarrow> ('k, 'T) heap \<Rightarrow> ('k, 'T) heap" where
  "inner_delete a k h = h\<lparr>inner_maps := (inner_maps h)(a := AList.delete k (inner_maps h a))\<rparr>"

text \<open>
  A slice returned by the cache is the only reference to its backing array, so a slice is
  the address of a list object and \<^verbatim>\<open>append\<close> extends that list (when Go moves the
  elements to a larger array, no other reference to either array exists). A nil slice is
  \<open>None\<close>.
\<close>

definition make_slice_map :: "('k, 'T) heap \<Rightarrow> addr \<times> ('k, 'T) heap" where
  "make_slice_map h =
     (next_addr h,
      h\<lparr>slice_maps := (slice_maps h)(next_addr h := []), next_addr := Suc (next_addr h)\<rparr>)"

definition make_slice :: "('k, 'T) heap \<Rightarrow> addr \<times> ('k, 'T) heap" where
  "make_slice h =
     (next_addr h,
      h\<lparr>slices := (slices h)(next_addr h := []), next_addr := Suc (next_addr h)\<rparr>)"

definition slice_map_store :: "addr \<Rightarrow> 'k \<Rightarrow> addr \<Rightarrow> ('k, 'T) heap \<Rightarrow> ('k, 'T) heap" where
  "slice_map_store a k v h = h\<lparr>slice_maps := (slice_maps h)(a := AList.update k v (slice_maps h a))\<rparr>"

definition slice_append :: "addr \<Rightarrow> 'T \<Rightarrow> ('k, 'T) heap \<Rightarrow> ('k, 'T) heap" where
  "slice_append a x h = h\<lparr>slices := (slices h)(a := slices h a @ [x])\<rparr>"

text \<open>\<^verbatim>\<open>m[k] = append(m[k], x)\<close> on a \<^verbatim>\<open>map[ID][]T\<close>: a missing key reads as the nil
  slice, and appending to the nil slice allocates.\<close>

definition slice_map_append :: "addr \<Rightarrow> 'k \<Rightarrow> 'T \<Rightarrow> ('k, 'T) heap \<Rightarrow> ('k, 'T) heap" where
  "slice_map_append a k x h =
     (case map_of (slice_maps h a) k of
        Some s \<Rightarrow> slice_map_store a k s (slice_append s x h)
      | None \<Rightarrow>
          let (s, h1) = make_slice h
          in slice_map_store a k s (slice_append s x h1))"

subsection \<open>Ranging over a map\<close>

text \<open>
  \<^verbatim>\<open>for k, v := range m\<close> visits every key of the map once. The keys are those the map has
  when the loop starts; a key deleted before the loop reaches it is skipped, and the value
  is read when the key is visited (no loop of the cache inserts into the map it ranges
  over). \<open>live\<close> reads the map object from the current state.
  Shadowed pairs of the association list are not entries of the map.
\<close>

definition map_entries :: "('k \<times> 'v) list \<Rightarrow> ('k \<times> 'v) list" where
  "map_entries m = AList.clearjunk m"

definition map_keys :: "('k \<times> 'v) list \<Rightarrow> 'k list" where
  "map_keys m = map fst (map_entries m)"

fun range_keys ::
  "('s \<Rightarrow> ('k \<times> 'v) list) \<Rightarrow> 'k list \<Rightarrow> ('k \<Rightarrow> 'v \<Rightarrow> 's \<Rightarrow> 's) \<Rightarrow> 's \<Rightarrow> 's" where
  "range_keys live [] body s = s"
| "range_keys live (k # ks) body s =
     range_keys live ks body
       (case map_of (live s) k of None \<Rightarrow> s | Some v \<Rightarrow> body k v s)"

definition range_map ::
  "('s \<Rightarrow> ('k \<times> 'v) list) \<Rightarrow> ('k \<Rightarrow> 'v \<Rightarrow> 's \<Rightarrow> 's) \<Rightarrow> 's \<Rightarrow> 's" where
  "range_map live body s = range_keys live (map_keys (live s)) body s"

section \<open>Cache flags and policy\<close>

text \<open>
  \<^verbatim>\<open>Flags\<close> (package cache) and \<^verbatim>\<open>CacheFlags\<close> (package core) are Go \<^verbatim>\<open>int\<close> bitsets,
  64 bits wide on the usual platforms. Their declaration is not part of the sources at hand.
\<close>

type_synonym Flags = "64 word"

text \<open>Modelled from the spec: the constant \<^verbatim>\<open>FlagsNone\<close> / \<^verbatim>\<open>CacheFlagsNone\<close>, the empty
  bitset ("a bitset of which entity kinds are mirrored").\<close>

definition FlagsNone :: Flags where
  "FlagsNone = 0"

text \<open>Modelled from the spec: the method \<^verbatim>\<open>Flags.Missing\<close>, true when the receiver is
  "missing some needed flag", that is when some bit of \<open>bits\<close> is not set in \<open>f\<close>.\<close>

definition Missing :: "Flags \<Rightarrow> Flags \<Rightarrow> bool" where
  "Missing f bits = (f AND bits \<noteq> bits)"

section \<open>The grouped cache\<close>

text \<open>
  \<^verbatim>\<open>DefaultGroupedCache[T]\<close> is declared with the same fields in package cache
  (\<^verbatim>\<open>src/cache/grouped_cache.go\<close>) and in package core (\<^verbatim>\<open>src/unnamed/part_002\<close>).
  The mutex is not modelled: all functions below describe one call running alone.
  \<open>policy\<close> is a Go function value, nil being \<open>None\<close>; \<open>cache\<close> is a map reference.
  The key type \<open>'k\<close> is \<^verbatim>\<open>snowflake.ID\<close> in package cache and
  \<^verbatim>\<open>snowflake.Snowflake\<close> in package core.
\<close>

record 'T DefaultGroupedCache =
  flags :: Flags
  neededFlags :: Flags
  policy :: "('T \<Rightarrow> bool) option"
  cache :: "addr option"

text \<open>A call acts on the receiver \<open>c\<close> and the store \<open>h\<close>; functions that change
  either return the new ones. \<open>z\<close> is the zero value of \<^verbatim>\<open>T\<close> (\<^verbatim>\<open>var entity T\<close>).\<close>

subsection \<open>Package cache\<close>

definition NewGroupedCache ::
  "Flags \<Rightarrow> Flags \<Rightarrow> ('T \<Rightarrow> bool) option \<Rightarrow> ('k, 'T) heap
     \<Rightarrow> 'T DefaultGroupedCache \<times> ('k, 'T) heap" where
  "NewGroupedCache fl needed pol h =
     (let (a, h') = make_outer h
      in (\<lparr>flags = fl, neededFlags = needed, policy = pol, cache = Some a\<rparr>, h'))"

definition Get ::
  "'T \<Rightarrow> 'T DefaultGroupedCache \<Rightarrow> ('k, 'T) heap \<Rightarrow> 'k \<Rightarrow> 'k \<Rightarrow> 'T \<times> bool" where
  "Get z c h groupID id' =
     (case map_of (outer_entries h (cache c)) groupID of
        Some groupEntities \<Rightarrow>
          (case map_of (inner_maps h groupEntities) id' of
             Some entity \<Rightarrow> (entity, True)
           | None \<Rightarrow> (z, False))
      | None \<Rightarrow> (z, False))"

definition Put ::
  "'T DefaultGroupedCache \<Rightarrow> ('k, 'T) heap \<Rightarrow> 'k \<Rightarrow> 'k \<Rightarrow> 'T
     \<Rightarrow> 'T DefaultGroupedCache \<times> ('k, 'T) heap" where
  "Put c h groupID id' entity =
     (if neededFlags c \<noteq> FlagsNone \<and> Missing (flags c) (neededFlags c) then (c, h)
      else if (case policy c of None \<Rightarrow> False | Some p \<Rightarrow> \<not> p entity) then (c, h)
      else
        let (m, h1) = (case cache c of
                         None \<Rightarrow> make_outer h
                       | Some a \<Rightarrow> (a, h));
            c1 = c\<lparr>cache := Some m\<rparr>
        in (case map_of (outer_maps h1 m) groupID of
              Some groupEntities \<Rightarrow> (c1, inner_store groupEntities id' entity h1)
            | None \<Rightarrow>
                let (groupEntities, h2) = make_inner h1;
                    h3 = inner_store groupEntities id' entity h2
                in (c1, outer_store m groupID groupEntities h3)))"

definition Remove ::
  "'T \<Rightarrow> 'T DefaultGroupedCache \<Rightarrow> ('k, 'T) heap \<Rightarrow> 'k \<Rightarrow> 'k
     \<Rightarrow> ('T \<times> bool) \<times> ('k, 'T) heap" where
  "Remove z c h groupID id' =
     (case map_of (outer_entries h (cache c)) groupID of
        Some groupEntities \<Rightarrow>
          (case map_of (inner_maps h groupEntities) id' of
             Some entity \<Rightarrow> ((entity, True), inner_delete groupEntities id' h)
           | None \<Rightarrow> ((z, False), h))
      | None \<Rightarrow> ((z, False), h))"

definition RemoveAll ::
  "'T DefaultGroupedCache \<Rightarrow> ('k, 'T) heap \<Rightarrow> 'k \<Rightarrow> ('k, 'T) heap" where
  "RemoveAll c h groupID =
     (case cache c of
        None \<Rightarrow> h
      | Some m \<Rightarrow> outer_delete m groupID h)"

text \<open>The filter and find callbacks are pure predicates on group id and entity.\<close>

definition RemoveIf ::
  "'T DefaultGroupedCache \<Rightarrow> ('k, 'T) heap \<Rightarrow> ('k \<Rightarrow> 'T \<Rightarrow> bool) \<Rightarrow> ('k, 'T) heap" where
  "RemoveIf c h filterFunc =
     range_map (\<lambda>h. outer_entries h (cache c))
       (\<lambda>groupID _ h.
          let groupEntities = map_of (outer_entries h (cache c)) groupID
          in range_map (\<lambda>h. inner_entries h groupEntities)
               (\<lambda>id' entity h.
                  if filterFunc groupID entity
                  then (case map_of (outer_entries h (cache c)) groupID of
                          None \<Rightarrow> h
                        | Some m \<Rightarrow> inner_delete m id' h)
                  else h) h) h"

definition All ::
  "'T DefaultGroupedCache \<Rightarrow> ('k, 'T) heap \<Rightarrow> addr \<times> ('k, 'T) heap" where
  "All c h =
     (let (all, h1) = make_slice_map h
      in (all,
          range_map (\<lambda>h. outer_entries h (cache c))
            (\<lambda>groupID groupEntities h.
               let (s, h2) = make_slice h;
                   h3 = slice_map_store all groupID s h2
               in range_map (\<lambda>h. inner_maps h groupEntities)
                    (\<lambda>_ entity h. slice_map_append all groupID entity h) h3) h1))"

definition GroupAll ::
  "'T DefaultGroupedCache \<Rightarrow> ('k, 'T) heap \<Rightarrow> 'k \<Rightarrow> addr option \<times> ('k, 'T) heap" where
  "GroupAll c h groupID =
     (case map_of (outer_entries h (cache c)) groupID of
        None \<Rightarrow> (None, h)
      | Some groupEntities \<Rightarrow>
          let (all, h1) = make_slice h
          in (Some all,
              range_map (\<lambda>h. inner_maps h groupEntities)
                (\<lambda>_ entity h. slice_append all entity h) h1))"

text \<open>In \<open>MapAll\<close>, \<^verbatim>\<open>all[groupID][entityID] = entity\<close> stores into the bucket that was put
  under \<open>groupID\<close> just before the inner loop; were the bucket nil the assignment would
  panic, which cannot happen here, and that branch leaves the store alone.\<close>

definition MapAll ::
  "'T DefaultGroupedCache \<Rightarrow> ('k, 'T) heap \<Rightarrow> addr \<times> ('k, 'T) heap" where
  "MapAll c h =
     (let (all, h1) = make_outer h
      in (all,
          range_map (\<lambda>h. outer_entries h (cache c))
            (\<lambda>groupID groupEntities h.
               let (m, h2) = make_inner h;
                   h3 = outer_store all groupID m h2
               in range_map (\<lambda>h. inner_maps h groupEntities)
                    (\<lambda>entityID entity h.
                       (case map_of (outer_maps h all) groupID of
                          None \<Rightarrow> h
                        | Some b \<Rightarrow> inner_store b entityID entity h)) h3) h1))"

definition MapGroupAll ::
  "'T DefaultGroupedCache \<Rightarrow> ('k, 'T) heap \<Rightarrow> 'k \<Rightarrow> addr option \<times> ('k, 'T) heap" where
  "MapGroupAll c h groupID =
     (case map_of (outer_entries h (cache c)) groupID of
        None \<Rightarrow> (None, h)
      | Some groupEntities \<Rightarrow>
          let (all, h1) = make_inner h
          in (Some all,
              range_map (\<lambda>h. inner_maps h groupEntities)
                (\<lambda>entityID entity h. inner_store all entityID entity h) h1))"





definition FindAll ::
  "'T DefaultGroupedCache \<Rightarrow> ('k, 'T) heap \<Rightarrow> ('k \<Rightarrow> 'T \<Rightarrow> bool) \<Rightarrow> addr \<times> ('k, 'T) heap" where
  "FindAll c h cacheFindFunc =
     (let (all, h1) = make_slice h
      in (all,
          range_map (\<lambda>h. outer_entries h (cache c))
            (\<lambda>groupID groupEntities h.
               range_map (\<lambda>h. inner_maps h groupEntities)
                 (\<lambda>_ entity h.
                    if cacheFindFunc groupID entity then slice_append all entity h else h) h) h1))"

definition GroupFindAll ::
  "'T DefaultGroupedCache \<Rightarrow> ('k, 'T) heap \<Rightarrow> 'k \<Rightarrow> ('k \<Rightarrow> 'T \<Rightarrow> bool)
     \<Rightarrow> addr \<times> ('k, 'T) heap" where
  "GroupFindAll c h groupID cacheFindFunc =
     (let (all, h1) = make_slice h;
          groupEntities = map_of (outer_entries h1 (cache c)) groupID
      in (all,
          range_map (\<lambda>h. inner_entries h groupEntities)
            (\<lambda>_ entity h.
               if cacheFindFunc groupID entity then slice_append all entity h else h) h1))"

subsection \<open>Package core\<close>


definition core_Get ::
  "'T \<Rightarrow> 'T DefaultGroupedCache \<Rightarrow> ('k, 'T) heap \<Rightarrow> 'k \<Rightarrow> 'k \<Rightarrow> 'T \<times> bool" where
  "core_Get z c h groupID id' =
     (case map_of (outer_entries h (cache c)) groupID of
        Some groupEntities \<Rightarrow>
          (case map_of (inner_maps h groupEntities) id' of
             Some entity \<Rightarrow> (entity, True)
           | None \<Rightarrow> (z, False))
      | None \<Rightarrow> (z, False))"

definition core_Put ::
  "'T DefaultGroupedCache \<Rightarrow> ('k, 'T) heap \<Rightarrow> 'k \<Rightarrow> 'k \<Rightarrow> 'T
     \<Rightarrow> 'T DefaultGroupedCache \<times> ('k, 'T) heap" where
  "core_Put c h groupID id' entity =
     (if neededFlags c \<noteq> FlagsNone \<and> Missing (flags c) (neededFlags c) then (c, h)
      else if (case policy c of None \<Rightarrow> False | Some p \<Rightarrow> \<not> p entity) then (c, h)
      else
        let (m, h1) = (case cache c of
                         None \<Rightarrow> make_outer h
                       | Some a \<Rightarrow> (a, h));
            c1 = c\<lparr>cache := Some m\<rparr>
        in (case map_of (outer_maps h1 m) groupID of
              Some groupEntities \<Rightarrow> (c1, inner_store groupEntities id' entity h1)
            | None \<Rightarrow>
                let (groupEntities, h2) = make_inner h1;
                    h3 = inner_store groupEntities id' entity h2
                in (c1, outer_store m groupID groupEntities h3)))"

definition core_Remove ::
  "'T \<Rightarrow> 'T DefaultGroupedCache \<Rightarrow> ('k, 'T) heap \<Rightarrow> 'k \<Rightarrow> 'k
     \<Rightarrow> ('T \<times> bool) \<times> ('k, 'T) heap" where
  "core_Remove z c h groupID id' =
     (case map_of (outer_entries h (cache c)) groupID of
        Some groupEntities \<Rightarrow>
          (case map_of (inner_maps h groupEntities) id' of
             Some entity \<Rightarrow> ((entity, True), inner_delete groupEntities id' h)
           | None \<Rightarrow> ((z, False), h))
      | None \<Rightarrow> ((z, False), h))"

definition core_RemoveAll ::
  "'T DefaultGroupedCache \<Rightarrow> ('k, 'T) heap \<Rightarrow> 'k \<Rightarrow> ('k, 'T) heap" where
  "core_RemoveAll c h groupID =
     (case cache c of
        None \<Rightarrow> h
      | Some m \<Rightarrow> outer_delete m groupID h)"









section \<open>Reachable states\<close>

text \<open>
  The buckets of a cache are allocated by \<open>Put\<close>, one per group, and everything the cache
  refers to was allocated before the current allocation pointer. Both hold of a new cache
  and are kept by every function of package cache, which never hands a reference to an
  internal map out.
\<close>

definition no_alias :: "'T DefaultGroupedCache \<Rightarrow> ('k, 'T) heap \<Rightarrow> bool" where
  "no_alias c h = distinct (map snd (map_entries (outer_entries h (cache c))))"

definition allocated :: "'T DefaultGroupedCache \<Rightarrow> ('k, 'T) heap \<Rightarrow> bool" where
  "allocated c h =
     ((case cache c of None \<Rightarrow> True | Some m \<Rightarrow> m < next_addr h) \<and>
      list_all (\<lambda>(g, a). a < next_addr h) (map_entries (outer_entries h (cache c))))"

definition wf_cache :: "'T DefaultGroupedCache \<Rightarrow> ('k, 'T) heap \<Rightarrow> bool" where
  "wf_cache c h = (no_alias c h \<and> allocated c h)"

text \<open>Two stores agree on every map object allocated below \<open>n\<close>.\<close>

definition agree_below :: "addr \<Rightarrow> ('k, 'T) heap \<Rightarrow> ('k, 'T) heap \<Rightarrow> bool" where
  "agree_below n h h' =
     (\<forall>a<n. outer_maps h' a = outer_maps h a \<and> inner_maps h' a = inner_maps h a)"

section \<open>Example states\<close>

text \<open>The empty store, and a store holding one cache with the user \<open>''alice''\<close> under
  group 7, id 9: the outer map lives at address 0, the bucket of group 7 at address 1.\<close>

definition empty_heap :: "('k, 'T) heap" where
  "empty_heap =
     \<lparr>outer_maps = (\<lambda>_. []), inner_maps = (\<lambda>_. []), slice_maps = (\<lambda>_. []),
      slices = (\<lambda>_. []), next_addr = 0\<rparr>"

definition ex_cache :: "string DefaultGroupedCache" where
  "ex_cache = \<lparr>flags = 3, neededFlags = 1, policy = Some (\<lambda>e. e \<noteq> ''bot''), cache = Some 0\<rparr>"

definition ex_heap :: "(64 word, string) heap" where
  "ex_heap =
     \<lparr>outer_maps = (\<lambda>_. [])(0 := [(7, 1)]), inner_maps = (\<lambda>_. [])(1 := [(9, ''alice'')]),
      slice_maps = (\<lambda>_. []), slices = (\<lambda>_. []), next_addr = 2\<rparr>"

text \<open>A call that allocates and writes slices only: it leaves every map object as it
  was.\<close>

definition same_maps :: "('k, 'T) heap \<Rightarrow> ('k, 'T) heap \<Rightarrow> bool" where
  "same_maps h h' =
     (outer_maps h' = outer_maps h \<and> inner_maps h' = inner_maps h \<and> next_addr h \<le> next_addr h')"


section \<open>Sequences of calls\<close>








section \<open>Properties of Get, Put, Remove and RemoveAll\<close>

lemmas heap_ops = make_outer_def make_inner_def inner_store_def outer_store_def
  inner_delete_def outer_delete_def outer_entries_def inner_entries_def

lemma Missing_not_None: "Missing f n \<Longrightarrow> n \<noteq> FlagsNone"
  by (auto simp: Missing_def FlagsNone_def)

lemma Get_not_found: "snd (Get z c h g i) = False \<Longrightarrow> Get z c h g i = (z, False)"
  by (auto simp: Get_def split: option.splits)

lemma core_Get_not_found: "snd (core_Get z c h g i) = False \<Longrightarrow> core_Get z c h g i = (z, False)"
  by (auto simp: core_Get_def split: option.splits)

text \<open>
  C1. When the cache's flags are missing a needed flag, or the policy rejects the entity,
  \<open>Put\<close> returns the receiver and the store as they were (in both packages), and a
  \<open>Get\<close> of a key that held nothing before still finds nothing.
\<close>

theorem Put_rejected_noop:
  assumes "Missing (flags c) (neededFlags c) \<or> (\<exists>p. policy c = Some p \<and> \<not> p entity)"
  shows "Put c h g i entity = (c, h) \<and> core_Put c h g i entity = (c, h) \<and>
         (snd (Get z c h g i) = False \<longrightarrow>
            (case Put c h g i entity of (c', h') \<Rightarrow> Get z c' h' g i) = (z, False)) \<and>
         (snd (core_Get z c h g i) = False \<longrightarrow>
            (case core_Put c h g i entity of (c', h') \<Rightarrow> core_Get z c' h' g i) = (z, False))"
proof -
  have r: "neededFlags c \<noteq> FlagsNone \<and> Missing (flags c) (neededFlags c) \<or>
           (case policy c of None \<Rightarrow> False | Some p \<Rightarrow> \<not> p entity)"
    using assms by (auto dest: Missing_not_None)
  have p: "Put c h g i entity = (c, h)"
    using r by (auto simp: Put_def)
  have q: "core_Put c h g i entity = (c, h)"
    using r by (auto simp: core_Put_def)
  show ?thesis
    using p q Get_not_found [of z c h g i] core_Get_not_found [of z c h g i] by simp
qed

theorem Put_rejected_noop_witness:
  "(\<exists>p. policy ex_cache = Some p \<and> \<not> p ''bot'') \<and>
   snd (Get [] ex_cache ex_heap 7 8) = False \<and>
   snd (core_Get [] ex_cache ex_heap 7 8) = False \<and>
   Put ex_cache ex_heap 7 8 ''bot'' = (ex_cache, ex_heap) \<and>
   core_Put ex_cache ex_heap 7 8 ''bot'' = (ex_cache, ex_heap) \<and>
   (case Put ex_cache ex_heap 7 8 ''bot'' of (c', h') \<Rightarrow> Get [] c' h' 7 8) = ([], False) \<and>
   (case core_Put ex_cache ex_heap 7 8 ''bot'' of (c', h') \<Rightarrow> core_Get [] c' h' 7 8)
     = ([], False)"
proof -
  have hyp: "\<exists>p. policy ex_cache = Some p \<and> \<not> p ''bot''"
    by (simp add: ex_cache_def)
  have nf: "snd (Get [] ex_cache ex_heap 7 8) = False"
           "snd (core_Get [] ex_cache ex_heap 7 8) = False"
    by (simp_all add: Get_def core_Get_def ex_cache_def ex_heap_def outer_entries_def)
  have "Put ex_cache ex_heap 7 8 ''bot'' = (ex_cache, ex_heap) \<and>
        core_Put ex_cache ex_heap 7 8 ''bot'' = (ex_cache, ex_heap) \<and>
        (case Put ex_cache ex_heap 7 8 ''bot'' of (c', h') \<Rightarrow> Get [] c' h' 7 8)
          = ([], False) \<and>
        (case core_Put ex_cache ex_heap 7 8 ''bot'' of (c', h') \<Rightarrow> core_Get [] c' h' 7 8)
          = ([], False)"
    using Put_rejected_noop [where c = ex_cache and entity = "''bot''" and h = ex_heap
        and g = 7 and i = 8 and z = "[]"] hyp nf
    by blast
  then show ?thesis using hyp nf by blast
qed

text \<open>
  C2. When no needed flag is missing and the policy is absent or accepts the entity, a
  \<open>Get\<close> after \<open>Put\<close> returns the entity with found = true (in both packages). After the
  call the group has a bucket in the outer map. When the group had none, it is a bucket
  holding just the new entry. When the group had a bucket, it is that same bucket object,
  now holding its old entries with the key inserted or replaced. No other bucket object
  changes, every other group keeps the bucket it had, and a \<open>Get\<close> of any other id of
  the group returns what it returned before.
\<close>

theorem Get_after_accepted_Put:
  assumes "\<not> Missing (flags c) (neededFlags c)"
    and "policy c = None \<or> (\<exists>p. policy c = Some p \<and> p entity)"
  shows "(case Put c h g i entity of (c', h') \<Rightarrow>
            Get z c' h' g i = (entity, True) \<and>
            (\<exists>a. map_of (outer_entries h' (cache c')) g = Some a \<and>
                 (case map_of (outer_entries h (cache c)) g of
                    None \<Rightarrow> inner_maps h' a = [(i, entity)]
                  | Some b \<Rightarrow> a = b \<and> inner_maps h' a = AList.update i entity (inner_maps h b)) \<and>
                 (\<forall>b. b \<noteq> a \<longrightarrow> inner_maps h' b = inner_maps h b)) \<and>
            (\<forall>g'. g' \<noteq> g \<longrightarrow>
               map_of (outer_entries h' (cache c')) g' = map_of (outer_entries h (cache c)) g') \<and>
            (\<forall>i'. i' \<noteq> i \<longrightarrow> Get z c' h' g i' = Get z c h g i')) \<and>
         (case core_Put c h g i entity of (c', h') \<Rightarrow>
            core_Get z c' h' g i = (entity, True) \<and>
            (\<exists>a. map_of (outer_entries h' (cache c')) g = Some a \<and>
                 (case map_of (outer_entries h (cache c)) g of
                    None \<Rightarrow> inner_maps h' a = [(i, entity)]
                  | Some b \<Rightarrow> a = b \<and> inner_maps h' a = AList.update i entity (inner_maps h b)) \<and>
                 (\<forall>b. b \<noteq> a \<longrightarrow> inner_maps h' b = inner_maps h b)) \<and>
            (\<forall>g'. g' \<noteq> g \<longrightarrow>
               map_of (outer_entries h' (cache c')) g' = map_of (outer_entries h (cache c)) g') \<and>
            (\<forall>i'. i' \<noteq> i \<longrightarrow> core_Get z c' h' g i' = core_Get z c h g i'))"
proof -
  have acc: "\<not> (neededFlags c \<noteq> FlagsNone \<and> Missing (flags c) (neededFlags c))"
            "\<not> (case policy c of None \<Rightarrow> False | Some p \<Rightarrow> \<not> p entity)"
    using assms by auto
  show ?thesis
    using acc
    by (auto simp: Put_def core_Put_def Get_def core_Get_def Let_def heap_ops update_conv'
             split: option.splits prod.splits)
qed

theorem Get_after_accepted_Put_witness:
  "\<not> Missing (flags ex_cache) (neededFlags ex_cache) \<and>
   (\<exists>p. policy ex_cache = Some p \<and> p ''carol'') \<and>
   (\<exists>p. policy ex_cache = Some p \<and> p ''bob'') \<and>
   map_of (outer_entries ex_heap (cache ex_cache)) 5 = None \<and>
   map_of (outer_entries ex_heap (cache ex_cache)) 7 = Some 1 \<and>
   (case Put ex_cache ex_heap 5 6 ''carol'' of (c', h') \<Rightarrow>
      Get [] c' h' 5 6 = (''carol'', True) \<and>
      map_of (outer_entries h' (cache c')) 5 = Some 2 \<and>
      inner_maps h' 2 = [(6, ''carol'')] \<and>
      map_of (outer_entries h' (cache c')) 7 = Some 1 \<and>
      inner_maps h' 1 = [(9, ''alice'')]) \<and>
   (case Put ex_cache ex_heap 7 8 ''bob'' of (c', h') \<Rightarrow>
      Get [] c' h' 7 8 = (''bob'', True) \<and>
      Get [] c' h' 7 9 = (''alice'', True) \<and>
      map_of (outer_entries h' (cache c')) 7 = Some 1 \<and>
      inner_maps h' 1 = [(9, ''alice''), (8, ''bob'')]) \<and>
   (case core_Put ex_cache ex_heap 5 6 ''carol'' of (c', h') \<Rightarrow>
      core_Get [] c' h' 5 6 = (''carol'', True) \<and>
      map_of (outer_entries h' (cache c')) 5 = Some 2 \<and>
      inner_maps h' 2 = [(6, ''carol'')] \<and>
      map_of (outer_entries h' (cache c')) 7 = Some 1 \<and>
      inner_maps h' 1 = [(9, ''alice'')]) \<and>
   (case core_Put ex_cache ex_heap 7 8 ''bob'' of (c', h') \<Rightarrow>
      core_Get [] c' h' 7 8 = (''bob'', True) \<and>
      core_Get [] c' h' 7 9 = (''alice'', True) \<and>
      map_of (outer_entries h' (cache c')) 7 = Some 1 \<and>
      inner_maps h' 1 = [(9, ''alice''), (8, ''bob'')])"
proof -
  have h1: "\<not> Missing (flags ex_cache) (neededFlags ex_cache)"
    by (simp add: ex_cache_def Missing_def)
  have h2: "\<exists>p. policy ex_cache = Some p \<and> p ''carol''"
           "\<exists>p. policy ex_cache = Some p \<and> p ''bob''"
    by (simp_all add: ex_cache_def)
  have o: "map_of (outer_entries ex_heap (cache ex_cache)) 5 = None"
          "map_of (outer_entries ex_heap (cache ex_cache)) 7 = Some 1"
    by (simp_all add: ex_cache_def ex_heap_def outer_entries_def)
  have i: "inner_maps ex_heap 1 = [(9, ''alice'')]"
    by (simp add: ex_heap_def)
  have g: "Get [] ex_cache ex_heap 7 9 = (''alice'', True)"
          "core_Get [] ex_cache ex_heap 7 9 = (''alice'', True)"
    by (simp_all add: Get_def core_Get_def ex_cache_def ex_heap_def outer_entries_def)
  have n: "map_of (outer_entries (snd (Put ex_cache ex_heap 5 6 ''carol''))
             (cache (fst (Put ex_cache ex_heap 5 6 ''carol'')))) 5 = Some 2"
          "map_of (outer_entries (snd (core_Put ex_cache ex_heap 5 6 ''carol''))
             (cache (fst (core_Put ex_cache ex_heap 5 6 ''carol'')))) 5 = Some 2"
    by (simp_all add: Put_def core_Put_def ex_cache_def ex_heap_def heap_ops Missing_def
          FlagsNone_def)
  have a: "(case Put ex_cache ex_heap 5 6 ''carol'' of (c', h') \<Rightarrow>
              Get [] c' h' 5 6 = (''carol'', True) \<and>
              map_of (outer_entries h' (cache c')) 5 = Some 2 \<and>
              inner_maps h' 2 = [(6, ''carol'')] \<and>
              map_of (outer_entries h' (cache c')) 7 = Some 1 \<and>
              inner_maps h' 1 = [(9, ''alice'')])"
    using Get_after_accepted_Put [where c = ex_cache and entity = "''carol''" and h = ex_heap
        and g = 5 and i = 6 and z = "[]"] h1 h2 o i n
    by (auto split: prod.splits)
  have b: "(case Put ex_cache ex_heap 7 8 ''bob'' of (c', h') \<Rightarrow>
              Get [] c' h' 7 8 = (''bob'', True) \<and>
              Get [] c' h' 7 9 = (''alice'', True) \<and>
              map_of (outer_entries h' (cache c')) 7 = Some 1 \<and>
              inner_maps h' 1 = [(9, ''alice''), (8, ''bob'')])"
    using Get_after_accepted_Put [where c = ex_cache and entity = "''bob''" and h = ex_heap
        and g = 7 and i = 8 and z = "[]"] h1 h2 o i g
    by (auto split: prod.splits)
  have a': "(case core_Put ex_cache ex_heap 5 6 ''carol'' of (c', h') \<Rightarrow>
              core_Get [] c' h' 5 6 = (''carol'', True) \<and>
              map_of (outer_entries h' (cache c')) 5 = Some 2 \<and>
              inner_maps h' 2 = [(6, ''carol'')] \<and>
              map_of (outer_entries h' (cache c')) 7 = Some 1 \<and>
              inner_maps h' 1 = [(9, ''alice'')])"
    using Get_after_accepted_Put [where c = ex_cache and entity = "''carol''" and h = ex_heap
        and g = 5 and i = 6 and z = "[]"] h1 h2 o i n
    by (auto split: prod.splits)
  have b': "(case core_Put ex_cache ex_heap 7 8 ''bob'' of (c', h') \<Rightarrow>
              core_Get [] c' h' 7 8 = (''bob'', True) \<and>
              core_Get [] c' h' 7 9 = (''alice'', True) \<and>
              map_of (outer_entries h' (cache c')) 7 = Some 1 \<and>
              inner_maps h' 1 = [(9, ''alice''), (8, ''bob'')])"
    using Get_after_accepted_Put [where c = ex_cache and entity = "''bob''" and h = ex_heap
        and g = 7 and i = 8 and z = "[]"] h1 h2 o i g
    by (auto split: prod.splits)
  show ?thesis using h1 h2 o a b a' b' by blast
qed

text \<open>
  C3. \<open>Put\<close> is idempotent: a second \<open>Put\<close> of the same entity under the same group and
  id returns the receiver and the store that the first one returned (in both packages),
  whether the first one was admitted or rejected.
\<close>

theorem Put_idempotent:
  "(case Put c h g i e of (c', h') \<Rightarrow> Put c' h' g i e) = Put c h g i e \<and>
   (case core_Put c h g i e of (c', h') \<Rightarrow> core_Put c' h' g i e) = core_Put c h g i e"
  by (auto simp: Put_def core_Put_def Let_def heap_ops update_conv'
           split: option.splits prod.splits)

text \<open>
  C4. \<open>Remove\<close> of a key that holds an entity returns that entity with found = true, and
  a \<open>Get\<close> of the key afterwards finds nothing; \<open>Remove\<close> of a key that holds nothing
  returns the zero value with found = false and leaves the store as it was (in both
  packages; \<open>Remove\<close> never changes the receiver).
\<close>

theorem Remove_result:
  "(\<forall>e. Get z c h g i = (e, True) \<longrightarrow>
      fst (Remove z c h g i) = (e, True) \<and>
      Get z c (snd (Remove z c h g i)) g i = (z, False)) \<and>
   (snd (Get z c h g i) = False \<longrightarrow> Remove z c h g i = ((z, False), h)) \<and>
   (\<forall>e. core_Get z c h g i = (e, True) \<longrightarrow>
      fst (core_Remove z c h g i) = (e, True) \<and>
      core_Get z c (snd (core_Remove z c h g i)) g i = (z, False)) \<and>
   (snd (core_Get z c h g i) = False \<longrightarrow> core_Remove z c h g i = ((z, False), h))"
  by (auto simp: Remove_def core_Remove_def Get_def core_Get_def heap_ops delete_conv'
           split: option.splits)

theorem Remove_result_witness:
  "Get [] ex_cache ex_heap 7 9 = (''alice'', True) \<and>
   fst (Remove [] ex_cache ex_heap 7 9) = (''alice'', True) \<and>
   Get [] ex_cache (snd (Remove [] ex_cache ex_heap 7 9)) 7 9 = ([], False) \<and>
   core_Get [] ex_cache ex_heap 7 9 = (''alice'', True) \<and>
   fst (core_Remove [] ex_cache ex_heap 7 9) = (''alice'', True) \<and>
   core_Get [] ex_cache (snd (core_Remove [] ex_cache ex_heap 7 9)) 7 9 = ([], False) \<and>
   snd (Get [] ex_cache ex_heap 7 8) = False \<and>
   Remove [] ex_cache ex_heap 7 8 = (([], False), ex_heap) \<and>
   snd (core_Get [] ex_cache ex_heap 7 8) = False \<and>
   core_Remove [] ex_cache ex_heap 7 8 = (([], False), ex_heap)"
proof -
  have f: "Get [] ex_cache ex_heap 7 9 = (''alice'', True)"
          "core_Get [] ex_cache ex_heap 7 9 = (''alice'', True)"
    by (simp_all add: Get_def core_Get_def ex_cache_def ex_heap_def outer_entries_def)
  have n: "snd (Get [] ex_cache ex_heap 7 8) = False"
          "snd (core_Get [] ex_cache ex_heap 7 8) = False"
    by (simp_all add: Get_def core_Get_def ex_cache_def ex_heap_def outer_entries_def)
  show ?thesis
    using Remove_result [where z = "[]" and c = ex_cache and h = ex_heap and g = 7 and i = 9]
      Remove_result [where z = "[]" and c = ex_cache and h = ex_heap and g = 7 and i = 8] f n
    by simp
qed

text \<open>
  C5. After \<open>RemoveAll\<close> of a group \<open>G\<close>, a \<open>Get\<close> under \<open>G\<close> finds nothing for any id,
  and a \<open>Get\<close> under any other group returns what it returned before (in both packages).
\<close>

theorem RemoveAll_group:
  "Get z c (RemoveAll c h G) G i = (z, False) \<and>
   (G' \<noteq> G \<longrightarrow> Get z c (RemoveAll c h G) G' i = Get z c h G' i) \<and>
   core_Get z c (core_RemoveAll c h G) G i = (z, False) \<and>
   (G' \<noteq> G \<longrightarrow> core_Get z c (core_RemoveAll c h G) G' i = core_Get z c h G' i)"
  by (auto simp: RemoveAll_def core_RemoveAll_def Get_def core_Get_def heap_ops delete_conv'
           split: option.splits)

theorem RemoveAll_group_witness:
  "(7 :: 64 word) \<noteq> 5 \<and>
   Get [] ex_cache (RemoveAll ex_cache ex_heap 5) 5 9 = ([], False) \<and>
   Get [] ex_cache (RemoveAll ex_cache ex_heap 5) 7 9 = (''alice'', True) \<and>
   core_Get [] ex_cache (core_RemoveAll ex_cache ex_heap 5) 5 9 = ([], False) \<and>
   core_Get [] ex_cache (core_RemoveAll ex_cache ex_heap 5) 7 9 = (''alice'', True)"
proof -
  have f: "Get [] ex_cache ex_heap 7 9 = (''alice'', True)"
          "core_Get [] ex_cache ex_heap 7 9 = (''alice'', True)"
    by (simp_all add: Get_def core_Get_def ex_cache_def ex_heap_def outer_entries_def)
  show ?thesis
    using RemoveAll_group [where z = "[]" and c = ex_cache and h = ex_heap and G = 5 and i = 9
        and G' = 7] f
    by simp
qed

section \<open>Reachable states are well formed\<close>

lemma map_of_map_entries: "map_of (map_entries m) = map_of m"
  by (simp add: map_entries_def map_of_clearjunk)

lemma distinct_map_keys: "distinct (map_keys m)"
  by (simp add: map_keys_def map_entries_def)

lemma map_of_Some_in_map_keys: "map_of m k = Some v \<Longrightarrow> k \<in> set (map_keys m)"
  by (metis clearjunk_keys_set domI dom_map_of_conv_image_fst map_entries_def map_keys_def set_map)

lemma in_map_entries_iff: "(k, v) \<in> set (map_entries m) \<longleftrightarrow> map_of m k = Some v"
  by (metis distinct_clearjunk map_entries_def map_of_clearjunk map_of_eq_Some_iff)

lemma no_alias_unique:
  assumes "no_alias c h"
    and "map_of (outer_entries h (cache c)) g = Some a"
    and "map_of (outer_entries h (cache c)) g' = Some a"
  shows "g' = g"
proof -
  let ?E = "map_entries (outer_entries h (cache c))"
  have d: "distinct (map snd ?E)" using assms(1) by (simp add: no_alias_def)
  have "(g, a) \<in> set ?E" "(g', a) \<in> set ?E"
    using assms(2,3) by (simp_all add: in_map_entries_iff)
  then show ?thesis
    using d by (metis distinct_map inj_onD prod.inject snd_conv)
qed



lemma no_alias_iff:
  "no_alias c h \<longleftrightarrow>
     (\<forall>g g' a. map_of (outer_entries h (cache c)) g = Some a \<and>
                map_of (outer_entries h (cache c)) g' = Some a \<longrightarrow> g' = g)"
proof
  assume "no_alias c h"
  then show "\<forall>g g' a. map_of (outer_entries h (cache c)) g = Some a \<and>
                map_of (outer_entries h (cache c)) g' = Some a \<longrightarrow> g' = g"
    using no_alias_unique [of c h] by blast
next
  let ?E = "map_entries (outer_entries h (cache c))"
  assume u: "\<forall>g g' a. map_of (outer_entries h (cache c)) g = Some a \<and>
                map_of (outer_entries h (cache c)) g' = Some a \<longrightarrow> g' = g"
  have "distinct (map fst ?E)" by (simp add: map_entries_def)
  then have d: "distinct ?E" by (simp add: distinct_map)
  have "inj_on snd (set ?E)"
  proof (rule inj_onI)
    fix x y assume xy: "x \<in> set ?E" "y \<in> set ?E" "snd x = snd y"
    obtain g a where x: "x = (g, a)" by (cases x)
    obtain g' a' where y: "y = (g', a')" by (cases y)
    have "map_of (outer_entries h (cache c)) g = Some a"
         "map_of (outer_entries h (cache c)) g' = Some a"
      using xy x y by (simp_all add: in_map_entries_iff)
    then have "g' = g" using u by blast
    then show "x = y" using x y xy(3) by simp
  qed
  then show "no_alias c h" using d by (simp add: no_alias_def distinct_map)
qed

lemma allocated_iff:
  "allocated c h \<longleftrightarrow>
     (case cache c of None \<Rightarrow> True | Some m \<Rightarrow> m < next_addr h) \<and>
     (\<forall>g a. map_of (outer_entries h (cache c)) g = Some a \<longrightarrow> a < next_addr h)"
  by (auto simp: allocated_def list_all_iff in_map_entries_iff)

lemma wf_NewGroupedCache:
  "NewGroupedCache fl needed pol h = (c, h') \<Longrightarrow> wf_cache c h'"
  by (auto simp: NewGroupedCache_def wf_cache_def no_alias_iff allocated_iff heap_ops)

lemma wf_Put:
  assumes "wf_cache c h" and "Put c h g i e = (c', h')"
  shows "wf_cache c' h'"
proof -
  let ?M = "outer_entries h (cache c)"
  have inj: "\<And>g g' a. map_of ?M g = Some a \<Longrightarrow> map_of ?M g' = Some a \<Longrightarrow> g' = g"
    using assms(1) by (auto simp: wf_cache_def no_alias_iff)
  have bnd: "\<And>g a. map_of ?M g = Some a \<Longrightarrow> a < next_addr h"
    using assms(1) by (simp add: wf_cache_def allocated_iff)
  have cb: "case cache c of None \<Rightarrow> True | Some m \<Rightarrow> m < next_addr h"
    using assms(1) by (simp add: wf_cache_def allocated_iff)
  show ?thesis
  proof (cases "(neededFlags c \<noteq> FlagsNone \<and> Missing (flags c) (neededFlags c)) \<or>
                (case policy c of None \<Rightarrow> False | Some p \<Rightarrow> \<not> p e)")
    case True
    then have "Put c h g i e = (c, h)" by (auto simp: Put_def)
    then show ?thesis using assms by simp
  next
    case False
    show ?thesis
    proof (cases "cache c")
      case None
      then have "c' = c\<lparr>cache := Some (next_addr h)\<rparr>"
        and "outer_maps h' (next_addr h) = [(g, Suc (next_addr h))]"
        and "next_addr h' = Suc (Suc (next_addr h))"
        using assms(2) False
        by (auto simp: Put_def heap_ops Let_def split: if_splits option.splits prod.splits)
      then show ?thesis
        by (auto simp: wf_cache_def no_alias_iff allocated_iff outer_entries_def split: if_splits)
    next
      case (Some m)
      show ?thesis
      proof (cases "map_of (outer_maps h m) g")
        case None
        then have r: "c' = c" "outer_maps h' m = AList.update g (next_addr h) (outer_maps h m)"
          "next_addr h' = Suc (next_addr h)"
          using assms(2) False Some
          by (auto simp: Put_def heap_ops Let_def split: if_splits option.splits prod.splits)
        have M: "?M = outer_maps h m" using Some by (simp add: outer_entries_def)
        have "no_alias c' h'"
          unfolding no_alias_iff using r Some inj bnd M
          by (auto simp: outer_entries_def update_conv' split: if_splits)
             (metis less_irrefl)+
        moreover have "allocated c' h'"
          unfolding allocated_iff using r Some bnd cb M
          by (auto simp: outer_entries_def update_conv' less_SucI split: if_splits)
        ultimately show ?thesis by (simp add: wf_cache_def)
      next
        case (Some b)
        then have r: "c' = c" "outer_maps h' = outer_maps h" "next_addr h' = next_addr h"
          using assms(2) False \<open>cache c = Some m\<close>
          by (auto simp: Put_def heap_ops Let_def split: if_splits option.splits prod.splits)
        then have "outer_entries h' (cache c') = ?M"
          by (simp add: outer_entries_def split: option.splits)
        then show ?thesis
          using assms(1) r
          by (simp add: wf_cache_def no_alias_def allocated_def split: option.splits)
      qed
    qed
  qed
qed

lemma wf_Remove:
  assumes "wf_cache c h" and "Remove z c h g i = (r, h')"
  shows "wf_cache c h'"
proof -
  have "outer_maps h' = outer_maps h" "next_addr h' = next_addr h"
    using assms(2) by (auto simp: Remove_def heap_ops split: option.splits)
  then have "outer_entries h' (cache c) = outer_entries h (cache c)"
    by (simp add: outer_entries_def split: option.splits)
  then show ?thesis
    using assms(1) \<open>next_addr h' = next_addr h\<close>
    by (simp add: wf_cache_def no_alias_def allocated_def split: option.splits)
qed

lemma wf_RemoveAll:
  assumes "wf_cache c h"
  shows "wf_cache c (RemoveAll c h g)"
  using assms
  by (auto simp: RemoveAll_def wf_cache_def no_alias_iff allocated_iff heap_ops delete_conv'
           split: option.splits if_splits)

section \<open>RemoveIf\<close>

text \<open>The inner loop of \<open>RemoveIf\<close> for one group, whose bucket is \<open>a\<close>: it changes
  only that bucket, from which it deletes the visited keys whose entity matches.\<close>

lemma RemoveIf_inner_loop:
  assumes "map_of (outer_entries h (cache c)) g = Some a"
  shows "outer_maps (range_keys (\<lambda>h. inner_entries h (Some a)) ks
            (\<lambda>id' entity h.
               if f g entity
               then (case map_of (outer_entries h (cache c)) g of
                       None \<Rightarrow> h
                     | Some m \<Rightarrow> inner_delete m id' h)
               else h) h) = outer_maps h \<and>
         next_addr (range_keys (\<lambda>h. inner_entries h (Some a)) ks
            (\<lambda>id' entity h.
               if f g entity
               then (case map_of (outer_entries h (cache c)) g of
                       None \<Rightarrow> h
                     | Some m \<Rightarrow> inner_delete m id' h)
               else h) h) = next_addr h \<and>
         (\<forall>a'. a' \<noteq> a \<longrightarrow>
            inner_maps (range_keys (\<lambda>h. inner_entries h (Some a)) ks
              (\<lambda>id' entity h.
                 if f g entity
                 then (case map_of (outer_entries h (cache c)) g of
                         None \<Rightarrow> h
                       | Some m \<Rightarrow> inner_delete m id' h)
                 else h) h) a' = inner_maps h a') \<and>
         (\<forall>k. map_of (inner_maps (range_keys (\<lambda>h. inner_entries h (Some a)) ks
              (\<lambda>id' entity h.
                 if f g entity
                 then (case map_of (outer_entries h (cache c)) g of
                         None \<Rightarrow> h
                       | Some m \<Rightarrow> inner_delete m id' h)
                 else h) h) a) k =
            (case map_of (inner_maps h a) k of
               None \<Rightarrow> None
             | Some v \<Rightarrow> if k \<in> set ks \<and> f g v then None else Some v))"
    (is "?P ks h")
  using assms
proof (induction ks arbitrary: h)
  case Nil
  then show ?case by (auto split: option.splits)
next
  case (Cons k ks)
  let ?body = "\<lambda>id' entity h.
                 if f g entity
                 then (case map_of (outer_entries h (cache c)) g of
                         None \<Rightarrow> h
                       | Some m \<Rightarrow> inner_delete m id' h)
                 else h"
  let ?h1 = "(case map_of (inner_entries h (Some a)) k of None \<Rightarrow> h | Some v \<Rightarrow> ?body k v h)"
  have o1: "outer_maps ?h1 = outer_maps h" "next_addr ?h1 = next_addr h"
    using Cons.prems by (auto simp: heap_ops split: option.splits)
  then have g1: "map_of (outer_entries ?h1 (cache c)) g = Some a"
    using Cons.prems by (simp add: outer_entries_def split: option.splits)
  have i1: "\<And>a'. a' \<noteq> a \<Longrightarrow> inner_maps ?h1 a' = inner_maps h a'"
    using Cons.prems by (auto simp: heap_ops split: option.splits)
  have m1: "\<And>k'. map_of (inner_maps ?h1 a) k' =
      (case map_of (inner_maps h a) k' of
         None \<Rightarrow> None
       | Some v \<Rightarrow> if k' = k \<and> f g v then None else Some v)"
    using Cons.prems by (auto simp: heap_ops delete_conv' split: option.splits)
  have step: "range_keys (\<lambda>h. inner_entries h (Some a)) (k # ks) ?body h =
              range_keys (\<lambda>h. inner_entries h (Some a)) ks ?body ?h1"
    by simp
  show ?case
    unfolding step using Cons.IH [OF g1] o1 i1 m1 by (auto split: option.splits)
qed

lemma RemoveIf_inner_loop_result:
  assumes g: "map_of (outer_entries h (cache c)) g = Some a"
    and h': "h' = range_keys (\<lambda>h. inner_entries h (Some a)) ks
              (\<lambda>id' entity h.
                 if f g entity
                 then (case map_of (outer_entries h (cache c)) g of
                         None \<Rightarrow> h
                       | Some m \<Rightarrow> inner_delete m id' h)
                 else h) h"
  shows "outer_maps h' = outer_maps h" and "next_addr h' = next_addr h"
    and "\<And>a'. a' \<noteq> a \<Longrightarrow> inner_maps h' a' = inner_maps h a'"
    and "\<And>k. map_of (inner_maps h' a) k =
            (case map_of (inner_maps h a) k of
               None \<Rightarrow> None
             | Some v \<Rightarrow> if k \<in> set ks \<and> f g v then None else Some v)"
  using RemoveIf_inner_loop [OF g, where ks = ks and f = f] unfolding h' by blast+

lemma RemoveIf_group:
  assumes g: "map_of (outer_entries h (cache c)) g = Some a"
    and h': "h' = (let groupEntities = map_of (outer_entries h (cache c)) g
                   in range_map (\<lambda>h. inner_entries h groupEntities)
              (\<lambda>id' entity h.
                 if f g entity
                 then (case map_of (outer_entries h (cache c)) g of
                         None \<Rightarrow> h
                       | Some m \<Rightarrow> inner_delete m id' h)
                 else h) h)"
  shows "outer_maps h' = outer_maps h" and "next_addr h' = next_addr h"
    and "\<And>a'. a' \<noteq> a \<Longrightarrow> inner_maps h' a' = inner_maps h a'"
    and "\<And>k. map_of (inner_maps h' a) k =
            (case map_of (inner_maps h a) k of
               None \<Rightarrow> None
             | Some v \<Rightarrow> if f g v then None else Some v)"
proof -
  have r: "h' = range_keys (\<lambda>h. inner_entries h (Some a)) (map_keys (inner_maps h a))
              (\<lambda>id' entity h.
                 if f g entity
                 then (case map_of (outer_entries h (cache c)) g of
                         None \<Rightarrow> h
                       | Some m \<Rightarrow> inner_delete m id' h)
                 else h) h"
    unfolding h' using g by (simp add: range_map_def inner_entries_def)
  note L = RemoveIf_inner_loop_result [where f = f, OF g r]
  show "outer_maps h' = outer_maps h" by (rule L(1))
  show "next_addr h' = next_addr h" by (rule L(2))
  show "\<And>a'. a' \<noteq> a \<Longrightarrow> inner_maps h' a' = inner_maps h a'" by (rule L(3))
  show "\<And>k. map_of (inner_maps h' a) k =
            (case map_of (inner_maps h a) k of
               None \<Rightarrow> None
             | Some v \<Rightarrow> if f g v then None else Some v)"
    using L(4) by (auto dest: map_of_Some_in_map_keys split: option.splits)
qed

lemma RemoveIf_outer_loop:
  assumes "h' = range_keys (\<lambda>h. outer_entries h (cache c)) gs
              (\<lambda>gid _ h.
               let groupEntities = map_of (outer_entries h (cache c)) gid
               in range_map (\<lambda>h. inner_entries h groupEntities)
                    (\<lambda>id' entity h.
                       if f gid entity
                       then (case map_of (outer_entries h (cache c)) gid of
                               None \<Rightarrow> h
                             | Some m \<Rightarrow> inner_delete m id' h)
                       else h) h) h"
  shows "outer_maps h' = outer_maps h \<and> next_addr h' = next_addr h \<and>
    (\<forall>a k. map_of (inner_maps h' a) k =
      (case map_of (inner_maps h a) k of
         None \<Rightarrow> None
       | Some v \<Rightarrow>
           if (\<exists>g \<in> set gs. map_of (outer_entries h (cache c)) g = Some a \<and> f g v)
           then None else Some v))"
  using assms
proof (induction gs arbitrary: h)
  case Nil
  then show ?case by (auto split: option.splits)
next
  case (Cons g gs)
  let ?M = "outer_entries h (cache c)"
  define h1 where "h1 = (case map_of ?M g of None \<Rightarrow> h | Some v \<Rightarrow>
      (let groupEntities = map_of (outer_entries h (cache c)) g
                   in range_map (\<lambda>h. inner_entries h groupEntities)
              (\<lambda>id' entity h.
                 if f g entity
                 then (case map_of (outer_entries h (cache c)) g of
                         None \<Rightarrow> h
                       | Some m \<Rightarrow> inner_delete m id' h)
                 else h) h))"
  have step: "h' = range_keys (\<lambda>h. outer_entries h (cache c)) gs
              (\<lambda>gid _ h.
               let groupEntities = map_of (outer_entries h (cache c)) gid
               in range_map (\<lambda>h. inner_entries h groupEntities)
                    (\<lambda>id' entity h.
                       if f gid entity
                       then (case map_of (outer_entries h (cache c)) gid of
                               None \<Rightarrow> h
                             | Some m \<Rightarrow> inner_delete m id' h)
                       else h) h) h1"
    unfolding Cons.prems h1_def by (simp only: range_keys.simps)
  have o1: "outer_maps h1 = outer_maps h \<and> next_addr h1 = next_addr h"
  proof (cases "map_of ?M g")
    case None
    then show ?thesis by (simp add: h1_def)
  next
    case (Some b)
    have e: "h1 = (let groupEntities = map_of (outer_entries h (cache c)) g
                   in range_map (\<lambda>h. inner_entries h groupEntities)
              (\<lambda>id' entity h.
                 if f g entity
                 then (case map_of (outer_entries h (cache c)) g of
                         None \<Rightarrow> h
                       | Some m \<Rightarrow> inner_delete m id' h)
                 else h) h)"
      using Some by (simp add: h1_def)
    show ?thesis using RemoveIf_group [where f = f, OF Some e] by simp
  qed
  from o1 have M1: "outer_entries h1 (cache c) = ?M"
    by (simp add: outer_entries_def split: option.splits)
  have m1: "map_of (inner_maps h1 a) k =
      (case map_of (inner_maps h a) k of
         None \<Rightarrow> None
       | Some v \<Rightarrow> if map_of ?M g = Some a \<and> f g v then None else Some v)" for a k
  proof (cases "map_of ?M g")
    case None
    then show ?thesis by (auto simp: h1_def split: option.splits)
  next
    case (Some b)
    have e: "h1 = (let groupEntities = map_of (outer_entries h (cache c)) g
                   in range_map (\<lambda>h. inner_entries h groupEntities)
              (\<lambda>id' entity h.
                 if f g entity
                 then (case map_of (outer_entries h (cache c)) g of
                         None \<Rightarrow> h
                       | Some m \<Rightarrow> inner_delete m id' h)
                 else h) h)"
      using Some by (simp add: h1_def)
    note L = RemoveIf_group [where f = f, OF Some e]
    show ?thesis
    proof (cases "a = b")
      case True
      then show ?thesis using L(4) [of k] Some by (auto split: option.splits)
    next
      case False
      then show ?thesis using L(3) [of a] Some by (auto split: option.splits)
    qed
  qed
  have IH: "outer_maps h' = outer_maps h1 \<and> next_addr h' = next_addr h1 \<and>
    (\<forall>a k. map_of (inner_maps h' a) k =
      (case map_of (inner_maps h1 a) k of
         None \<Rightarrow> None
       | Some v \<Rightarrow>
           if (\<exists>g \<in> set gs. map_of ?M g = Some a \<and> f g v)
           then None else Some v))"
    using Cons.IH [OF step] unfolding M1 .
  show ?case
  proof (intro conjI allI)
    show "outer_maps h' = outer_maps h" using IH o1 by simp
    show "next_addr h' = next_addr h" using IH o1 by simp
    fix a k
    have "map_of (inner_maps h' a) k = (case map_of (inner_maps h1 a) k of
         None \<Rightarrow> None
       | Some v \<Rightarrow>
           if (\<exists>g \<in> set gs. map_of ?M g = Some a \<and> f g v)
           then None else Some v)"
      using IH by blast
    then show "map_of (inner_maps h' a) k =
      (case map_of (inner_maps h a) k of
         None \<Rightarrow> None
       | Some v \<Rightarrow>
           if (\<exists>g \<in> set (g # gs). map_of ?M g = Some a \<and> f g v)
           then None else Some v)"
      unfolding m1 [of a k] by (auto split: option.splits)
  qed
qed

lemma RemoveIf_effect:
  "outer_maps (RemoveIf c h f) = outer_maps h \<and>
   next_addr (RemoveIf c h f) = next_addr h \<and>
   (\<forall>a k. map_of (inner_maps (RemoveIf c h f) a) k =
      (case map_of (inner_maps h a) k of
         None \<Rightarrow> None
       | Some v \<Rightarrow>
           if (\<exists>g. map_of (outer_entries h (cache c)) g = Some a \<and> f g v)
           then None else Some v))"
proof -
  define h' where "h' = RemoveIf c h f"
  have r: "h' = range_keys (\<lambda>h. outer_entries h (cache c)) (map_keys (outer_entries h (cache c)))
              (\<lambda>gid _ h.
               let groupEntities = map_of (outer_entries h (cache c)) gid
               in range_map (\<lambda>h. inner_entries h groupEntities)
                    (\<lambda>id' entity h.
                       if f gid entity
                       then (case map_of (outer_entries h (cache c)) gid of
                               None \<Rightarrow> h
                             | Some m \<Rightarrow> inner_delete m id' h)
                       else h) h) h"
    by (simp add: h'_def RemoveIf_def range_map_def)
  note L = RemoveIf_outer_loop [where f = f, OF r]
  have ex: "(\<exists>g \<in> set (map_keys (outer_entries h (cache c))).
            map_of (outer_entries h (cache c)) g = Some a \<and> f g v) \<longleftrightarrow>
        (\<exists>g. map_of (outer_entries h (cache c)) g = Some a \<and> f g v)" for a v
    by (auto dest: map_of_Some_in_map_keys)
  have "outer_maps h' = outer_maps h \<and>
   next_addr h' = next_addr h \<and>
   (\<forall>a k. map_of (inner_maps h' a) k =
      (case map_of (inner_maps h a) k of
         None \<Rightarrow> None
       | Some v \<Rightarrow>
           if (\<exists>g. map_of (outer_entries h (cache c)) g = Some a \<and> f g v)
           then None else Some v))"
    using L unfolding ex .
  then show ?thesis unfolding h'_def .
qed

lemma RemoveIf_outer_entries:
  "outer_entries (RemoveIf c h f) (cache c) = outer_entries h (cache c)"
proof -
  have "outer_maps (RemoveIf c h f) = outer_maps h"
    by (rule conjunct1 [OF RemoveIf_effect])
  then show ?thesis by (simp add: outer_entries_def split: option.splits)
qed

lemma wf_RemoveIf:
  assumes "wf_cache c h"
  shows "wf_cache c (RemoveIf c h f)"
proof -
  have n: "next_addr (RemoveIf c h f) = next_addr h"
    by (rule conjunct1 [OF conjunct2 [OF RemoveIf_effect]])
  show ?thesis
    using assms
    by (simp add: wf_cache_def no_alias_def allocated_def RemoveIf_outer_entries n
             split: option.splits)
qed

lemma RemoveIf_Get:
  assumes "no_alias c h"
  shows "Get z c (RemoveIf c h p) g i = (e, True) \<longleftrightarrow>
         Get z c h g i = (e, True) \<and> \<not> p g e"
proof -
  let ?M = "outer_entries h (cache c)"
  note M' = RemoveIf_outer_entries [of c h p]
  show ?thesis
  proof (cases "map_of ?M g")
    case None
    then show ?thesis using M' by (simp add: Get_def)
  next
    case (Some a)
    have ex: "(\<exists>g'. map_of ?M g' = Some a \<and> p g' v) \<longleftrightarrow> p g v" for v
      using no_alias_unique [OF assms Some] Some by blast
    have "map_of (inner_maps (RemoveIf c h p) a) i =
          (case map_of (inner_maps h a) i of
             None \<Rightarrow> None
           | Some v \<Rightarrow> if (\<exists>g'. map_of ?M g' = Some a \<and> p g' v) then None else Some v)"
      by (rule spec [OF spec [OF conjunct2 [OF conjunct2 [OF RemoveIf_effect]]]])
    then have "map_of (inner_maps (RemoveIf c h p) a) i =
          (case map_of (inner_maps h a) i of
             None \<Rightarrow> None
           | Some v \<Rightarrow> if p g v then None else Some v)"
      unfolding ex .
    then show ?thesis unfolding Get_def M' Some by (auto split: option.splits)
  qed
qed

text \<open>
  C6. After \<open>RemoveIf p\<close> an entity \<open>e\<close> is stored under a group and id exactly when it was
  stored there before and \<open>p\<close> is false of the group and \<open>e\<close>; so \<open>Get\<close> afterwards
  returns what it returned before when that was found and does not match, and not-found
  otherwise. The cache state is one in which no two groups share a bucket object, which
  holds of a new cache and is kept by every function of package cache
  (\<open>wf_NewGroupedCache\<close>, \<open>wf_Put\<close>, \<open>wf_Remove\<close>, \<open>wf_RemoveAll\<close>, \<open>wf_RemoveIf\<close>).
\<close>

theorem RemoveIf_keeps_exactly:
  assumes "no_alias c h"
  shows "(\<forall>e. Get z c (RemoveIf c h p) g i = (e, True) \<longleftrightarrow>
              Get z c h g i = (e, True) \<and> \<not> p g e) \<and>
         Get z c (RemoveIf c h p) g i =
           (case Get z c h g i of
              (e, found) \<Rightarrow> if found \<and> \<not> p g e then (e, True) else (z, False))"
proof -
  have a: "\<forall>e. Get z c (RemoveIf c h p) g i = (e, True) \<longleftrightarrow>
              Get z c h g i = (e, True) \<and> \<not> p g e"
    using RemoveIf_Get [OF assms] by blast
  obtain e found where b: "Get z c h g i = (e, found)" by (cases "Get z c h g i")
  have "Get z c (RemoveIf c h p) g i = (if found \<and> \<not> p g e then (e, True) else (z, False))"
  proof (cases "found \<and> \<not> p g e")
    case True
    then show ?thesis using a b by simp
  next
    case False
    have "snd (Get z c (RemoveIf c h p) g i) = False"
    proof (rule ccontr)
      assume "snd (Get z c (RemoveIf c h p) g i) \<noteq> False"
      then obtain e' where "Get z c (RemoveIf c h p) g i = (e', True)"
        by (cases "Get z c (RemoveIf c h p) g i") auto
      then have "Get z c h g i = (e', True) \<and> \<not> p g e'" using a by blast
      then show False using b False by simp
    qed
    then have "Get z c (RemoveIf c h p) g i = (z, False)" by (rule Get_not_found)
    then show ?thesis using False by auto
  qed
  then show ?thesis using a b by simp
qed

theorem RemoveIf_keeps_exactly_witness:
  "no_alias ex_cache ex_heap \<and>
   Get [] ex_cache ex_heap 7 9 = (''alice'', True) \<and>
   Get [] ex_cache (RemoveIf ex_cache ex_heap (\<lambda>g e. e = ''alice'')) 7 9 = ([], False) \<and>
   Get [] ex_cache (RemoveIf ex_cache ex_heap (\<lambda>g e. g = 5)) 7 9 = (''alice'', True)"
proof -
  have n: "no_alias ex_cache ex_heap"
    by (simp add: no_alias_def ex_cache_def ex_heap_def outer_entries_def map_entries_def)
  have g: "Get [] ex_cache ex_heap 7 9 = (''alice'', True)"
    by (simp add: Get_def ex_cache_def ex_heap_def outer_entries_def)
  show ?thesis
    using RemoveIf_keeps_exactly [where c = ex_cache and h = ex_heap and z = "[]" and g = 7
        and i = 9 and p = "\<lambda>g e. e = ''alice''"]
      RemoveIf_keeps_exactly [where c = ex_cache and h = ex_heap and z = "[]" and g = 7
        and i = 9 and p = "\<lambda>g e. g = 5"] n g
    by simp
qed

section \<open>Accessors\<close>

text \<open>An invariant of the body of a \<^verbatim>\<open>range\<close> loop holds when the loop is left.\<close>

lemma range_keys_inv:
  assumes "I s" and "\<And>k v s. I s \<Longrightarrow> I (body k v s)"
  shows "I (range_keys live ks body s)"
  using assms(1)
proof (induction ks arbitrary: s)
  case Nil
  then show ?case by simp
next
  case (Cons k ks)
  have "I (case map_of (live s) k of None \<Rightarrow> s | Some v \<Rightarrow> body k v s)"
    using Cons.prems assms(2) by (simp split: option.splits)
  then show ?case using Cons.IH by simp
qed

lemma range_map_inv:
  assumes "I s" and "\<And>k v s. I s \<Longrightarrow> I (body k v s)"
  shows "I (range_map live body s)"
  unfolding range_map_def using assms by (rule range_keys_inv)

lemma same_maps_refl: "same_maps h h"
  by (simp add: same_maps_def)

lemma same_maps_make_slice: "same_maps h s \<Longrightarrow> same_maps h (snd (make_slice s))"
  by (simp add: same_maps_def make_slice_def)

lemma same_maps_make_slice_map: "same_maps h s \<Longrightarrow> same_maps h (snd (make_slice_map s))"
  by (simp add: same_maps_def make_slice_map_def)

lemma same_maps_slice_append: "same_maps h s \<Longrightarrow> same_maps h (slice_append a x s)"
  by (simp add: same_maps_def slice_append_def)

lemma same_maps_slice_map_store: "same_maps h s \<Longrightarrow> same_maps h (slice_map_store a k v s)"
  by (simp add: same_maps_def slice_map_store_def)

lemma same_maps_slice_map_append: "same_maps h s \<Longrightarrow> same_maps h (slice_map_append a k x s)"
  by (simp add: same_maps_def slice_map_append_def slice_map_store_def slice_append_def
        make_slice_def split: option.splits)

lemma All_same_maps: "same_maps h (snd (All c h))"
proof -
  have b: "same_maps h (snd (make_slice_map h))"
    by (rule same_maps_make_slice_map [OF same_maps_refl])
  have "same_maps h (range_map (\<lambda>h. outer_entries h (cache c))
            (\<lambda>groupID groupEntities h.
               let (s, h2) = make_slice h;
                   h3 = slice_map_store (fst (make_slice_map h0)) groupID s h2
               in range_map (\<lambda>h. inner_maps h groupEntities)
                    (\<lambda>_ entity h. slice_map_append (fst (make_slice_map h0)) groupID entity h) h3)
            (snd (make_slice_map h)))" for h0 :: "('a, 'b) heap"
  proof (rule range_map_inv [where I = "same_maps h", OF b])
    fix k v s assume s: "same_maps h (s :: ('a, 'b) heap)"
    have "same_maps h (slice_map_store (fst (make_slice_map h0)) k (fst (make_slice s))
            (snd (make_slice s)))"
      by (rule same_maps_slice_map_store [OF same_maps_make_slice [OF s]])
    then have "same_maps h (range_map (\<lambda>h. inner_maps h v)
                    (\<lambda>_ entity h. slice_map_append (fst (make_slice_map h0)) k entity h)
                    (slice_map_store (fst (make_slice_map h0)) k (fst (make_slice s))
            (snd (make_slice s))))"
      by (rule range_map_inv) (rule same_maps_slice_map_append)
    then show "same_maps h (let (sl, h2) = make_slice s;
                   h3 = slice_map_store (fst (make_slice_map h0)) k sl h2
               in range_map (\<lambda>h. inner_maps h v)
                    (\<lambda>_ entity h. slice_map_append (fst (make_slice_map h0)) k entity h) h3)"
      by (simp add: Let_def split_beta)
  qed
  then show ?thesis by (simp add: All_def Let_def split_beta)
qed

lemma GroupAll_same_maps: "same_maps h (snd (GroupAll c h g))"
proof (cases "map_of (outer_entries h (cache c)) g")
  case None
  then show ?thesis by (simp add: GroupAll_def same_maps_refl)
next
  case (Some a)
  have "same_maps h (range_map (\<lambda>h. inner_maps h a)
          (\<lambda>_ entity h. slice_append (fst (make_slice h0)) entity h) (snd (make_slice h)))"
    for h0 :: "('a, 'b) heap"
    by (rule range_map_inv [where I = "same_maps h"])
       (rule same_maps_make_slice [OF same_maps_refl], rule same_maps_slice_append)
  then show ?thesis using Some by (simp add: GroupAll_def Let_def split_beta)
qed

lemma FindAll_same_maps: "same_maps h (snd (FindAll c h f))"
proof -
  have b: "same_maps h (snd (make_slice h))"
    by (rule same_maps_make_slice [OF same_maps_refl])
  have "same_maps h (range_map (\<lambda>h. outer_entries h (cache c))
            (\<lambda>groupID groupEntities h.
               range_map (\<lambda>h. inner_maps h groupEntities)
                 (\<lambda>_ entity h.
                    if f groupID entity then slice_append (fst (make_slice h0)) entity h else h) h)
            (snd (make_slice h)))" for h0 :: "('a, 'b) heap"
  proof (rule range_map_inv [where I = "same_maps h", OF b])
    fix k v s assume s: "same_maps h (s :: ('a, 'b) heap)"
    show "same_maps h (range_map (\<lambda>h. inner_maps h v)
                 (\<lambda>_ entity h.
                    if f k entity then slice_append (fst (make_slice h0)) entity h else h) s)"
      by (rule range_map_inv [where I = "same_maps h", OF s])
         (simp add: same_maps_slice_append)
  qed
  then show ?thesis by (simp add: FindAll_def Let_def split_beta)
qed

lemma GroupFindAll_same_maps: "same_maps h (snd (GroupFindAll c h g f))"
proof -
  have b: "same_maps h (snd (make_slice h))"
    by (rule same_maps_make_slice [OF same_maps_refl])
  have "same_maps h (range_map (\<lambda>h. inner_entries h r)
            (\<lambda>_ entity h.
               if f g entity then slice_append (fst (make_slice h0)) entity h else h)
            (snd (make_slice h)))" for h0 :: "('a, 'b) heap" and r
    by (rule range_map_inv [where I = "same_maps h", OF b])
       (simp add: same_maps_slice_append)
  then show ?thesis by (simp add: GroupFindAll_def Let_def split_beta)
qed






lemma MapGroupAll_fresh:
  "outer_maps (snd (MapGroupAll c h g)) = outer_maps h \<and>
   next_addr h \<le> next_addr (snd (MapGroupAll c h g)) \<and>
   (case fst (MapGroupAll c h g) of
      None \<Rightarrow> snd (MapGroupAll c h g) = h
    | Some b \<Rightarrow> b = next_addr h \<and>
        (\<forall>a. a \<noteq> b \<longrightarrow> inner_maps (snd (MapGroupAll c h g)) a = inner_maps h a))"
proof (cases "map_of (outer_entries h (cache c)) g")
  case None
  then show ?thesis by (simp add: MapGroupAll_def)
next
  case (Some ge)
  let ?I = "\<lambda>s. outer_maps s = outer_maps h \<and> next_addr h \<le> next_addr s \<and>
                 (\<forall>a. a \<noteq> next_addr h \<longrightarrow> inner_maps s a = inner_maps h a)"
  have "?I (range_map (\<lambda>h. inner_maps h ge)
                (\<lambda>entityID entity h. inner_store (next_addr h0) entityID entity h)
                (snd (make_inner h)))" if "next_addr h0 = next_addr h" for h0 :: "('a, 'b) heap"
    by (rule range_map_inv [where I = ?I]) (simp_all add: make_inner_def inner_store_def that)
  then show ?thesis using Some by (simp add: MapGroupAll_def Let_def split_beta make_inner_def)
qed

lemma MapAll_fresh:
  "fst (MapAll c h) = next_addr h \<and>
   agree_below (next_addr h) h (snd (MapAll c h)) \<and>
   next_addr h < next_addr (snd (MapAll c h)) \<and>
   (\<forall>g b. map_of (outer_maps (snd (MapAll c h)) (next_addr h)) g = Some b \<longrightarrow>
      next_addr h < b \<and> b < next_addr (snd (MapAll c h)))"
proof -
  define n where "n = next_addr h"
  let ?I = "\<lambda>s. agree_below n h s \<and> n < next_addr s \<and>
                 (\<forall>g b. map_of (outer_maps s n) g = Some b \<longrightarrow> n < b \<and> b < next_addr s)"
  have b: "?I (snd (make_outer h))"
    by (simp add: make_outer_def agree_below_def n_def)
  have inner: "?I (inner_store b k v s)" if "?I s" and "n < b" for s :: "('a, 'b) heap" and b k v
    using that by (auto simp: inner_store_def agree_below_def)
  have "?I (range_map (\<lambda>h. outer_entries h (cache c))
            (\<lambda>groupID groupEntities h.
               let (m, h2) = make_inner h;
                   h3 = outer_store n groupID m h2
               in range_map (\<lambda>h. inner_maps h groupEntities)
                    (\<lambda>entityID entity h.
                       (case map_of (outer_maps h n) groupID of
                          None \<Rightarrow> h
                        | Some b \<Rightarrow> inner_store b entityID entity h)) h3) (snd (make_outer h)))"
  proof (rule range_map_inv [where I = ?I, OF b])
    fix k v and s :: "('a, 'b) heap"
    assume s: "?I s"
    have s3: "?I (outer_store n k (next_addr s) (snd (make_inner s)))"
      using s by (auto simp: outer_store_def make_inner_def agree_below_def update_conv'
                      intro: less_SucI)
    have "?I (range_map (\<lambda>h. inner_maps h v)
                    (\<lambda>entityID entity h.
                       (case map_of (outer_maps h n) k of
                          None \<Rightarrow> h
                        | Some b \<Rightarrow> inner_store b entityID entity h))
                 (outer_store n k (next_addr s) (snd (make_inner s))))"
    proof (rule range_map_inv [where I = ?I, OF s3])
      fix k' v' and t :: "('a, 'b) heap"
      assume t: "?I t"
      show "?I (case map_of (outer_maps t n) k of None \<Rightarrow> t | Some b \<Rightarrow> inner_store b k' v' t)"
      proof (cases "map_of (outer_maps t n) k")
        case None
        then show ?thesis using t by simp
      next
        case (Some b)
        then have "n < b" using t by blast
        then show ?thesis using inner [OF t] Some by simp
      qed
    qed
    then show "?I (let (m, h2) = make_inner s;
                   h3 = outer_store n k m h2
               in range_map (\<lambda>h. inner_maps h v)
                    (\<lambda>entityID entity h.
                       (case map_of (outer_maps h n) k of
                          None \<Rightarrow> h
                        | Some b \<Rightarrow> inner_store b entityID entity h)) h3)"
      by (simp add: Let_def split_beta make_inner_def)
  qed
  then have "?I (snd (MapAll c h))"
    by (simp add: MapAll_def Let_def split_beta make_outer_def n_def)
  moreover have "fst (MapAll c h) = next_addr h"
    by (simp add: MapAll_def Let_def split_beta make_outer_def)
  ultimately show ?thesis unfolding n_def by blast
qed

lemma agree_below_same_maps: "same_maps h h' \<Longrightarrow> agree_below n h h'"
  by (simp add: same_maps_def agree_below_def)



lemma wf_agree_below:
  assumes "wf_cache c h" and "agree_below (next_addr h) h h'" and "next_addr h \<le> next_addr h'"
  shows "wf_cache c h'"
proof -
  have o: "outer_entries h' (cache c) = outer_entries h (cache c)"
    using assms by (auto simp: wf_cache_def allocated_def agree_below_def outer_entries_def
        split: option.splits)
  show ?thesis
    using assms(1,3) unfolding wf_cache_def no_alias_def allocated_def o
    by (auto simp: list_all_iff split: option.splits)
qed




lemma wf_accessors:
  assumes "wf_cache c h"
  shows "wf_cache c (snd (All c h))" and "wf_cache c (snd (GroupAll c h g))"
    and "wf_cache c (snd (MapAll c h))" and "wf_cache c (snd (MapGroupAll c h g))"
    and "wf_cache c (snd (FindAll c h f))" and "wf_cache c (snd (GroupFindAll c h g f))"
proof -
  have s: "wf_cache c h'" if "same_maps h h'" for h'
    using that by (intro wf_agree_below [OF assms]) (simp_all add: same_maps_def agree_below_def)
  show "wf_cache c (snd (All c h))" by (rule s [OF All_same_maps])
  show "wf_cache c (snd (GroupAll c h g))" by (rule s [OF GroupAll_same_maps])
  show "wf_cache c (snd (FindAll c h f))" by (rule s [OF FindAll_same_maps])
  show "wf_cache c (snd (GroupFindAll c h g f))" by (rule s [OF GroupFindAll_same_maps])
  show "wf_cache c (snd (MapAll c h))"
    using MapAll_fresh [of c h] by (intro wf_agree_below [OF assms]) simp_all
  have "agree_below (next_addr h) h (snd (MapGroupAll c h g))"
    using MapGroupAll_fresh [of c h g]
    by (cases "fst (MapGroupAll c h g)") (simp_all add: agree_below_def)
  then show "wf_cache c (snd (MapGroupAll c h g))"
    using MapGroupAll_fresh [of c h g] by (intro wf_agree_below [OF assms]) simp_all
qed





section \<open>The two implementations\<close>










end
